theory Spec2Isabelle
  imports Complex_Main
begin

section \<open>The program: vigenere.py\<close>

text \<open>
  A shallow embedding of \<^verbatim>\<open>src/vigenere.py\<close>. Python integers are \<open>int\<close>; a numpy
  integer array and a Python list of integers are both \<open>int list\<close>; a 2-d array is the list
  of its rows. Exceptions are values of \<open>error\<close>, returned in \<open>Inl\<close>.
\<close>

datatype error = ZeroDivisionError | ValueError

subsection \<open>numpy helpers\<close>

text \<open>
  A float64 entry. The program's float arithmetic (one division per frequency, the products
  and sums of the matrix product) is idealised as exact arithmetic on \<open>real\<close>; the one
  special value the program can produce is nan, from \<open>0 / 0\<close> on an empty bucket.
\<close>

datatype npfloat = Fin real | NaN

fun fmul :: "npfloat \<Rightarrow> npfloat \<Rightarrow> npfloat" where
  "fmul (Fin a) (Fin b) = Fin (a * b)"
| "fmul _ _ = NaN"

fun fadd :: "npfloat \<Rightarrow> npfloat \<Rightarrow> npfloat" where
  "fadd (Fin a) (Fin b) = Fin (a + b)"
| "fadd _ _ = NaN"

text \<open>
  \<^verbatim>\<open>np.roll(a, shift)\<close> on a 1-d array of length n: numpy reduces the shift modulo
  \<^verbatim>\<open>n or 1\<close> to an offset, then writes \<^verbatim>\<open>a[:-offset]\<close> to \<^verbatim>\<open>result[offset:]\<close> and
  \<^verbatim>\<open>a[-offset:]\<close> to \<^verbatim>\<open>result[:offset]\<close>.
\<close>

definition np_roll :: "'a list \<Rightarrow> int \<Rightarrow> 'a list" where
  "np_roll a shift =
     (let n = length a;
          offset = nat (shift mod int (if n = 0 then 1 else n))
      in drop (n - offset) a @ take (n - offset) a)"

text \<open>\<^verbatim>\<open>v.reshape(26, 1)\<close>: a vector as a one-column matrix.\<close>

definition reshape_col :: "'a list \<Rightarrow> 'a list list" where
  "reshape_col v = map (\<lambda>x. [x]) v"

text \<open>
  \<^verbatim>\<open>np.hstack\<close> of 2-d arrays: the rows are concatenated pairwise. numpy raises on an
  empty sequence and on arrays whose row counts differ; the single call of the program stacks
  26 columns of 26 rows, so neither case is reached there.
\<close>

fun np_hstack :: "'a list list list \<Rightarrow> 'a list list" where
  "np_hstack [] = []"
| "np_hstack [m] = m"
| "np_hstack (m # ms) = map2 (@) m (np_hstack ms)"

text \<open>\<^verbatim>\<open>np.sum(a == b)\<close>: the number of positions at which two arrays agree.\<close>

definition np_count_equal :: "int list \<Rightarrow> int list \<Rightarrow> int" where
  "np_count_equal a b = int (length (filter (\<lambda>(x, y). x = y) (zip a b)))"

text \<open>
  \<^verbatim>\<open>a[start::step]\<close> for \<open>start \<ge> 0\<close> and \<open>step \<ge> 1\<close>: the slice has
  \<^verbatim>\<open>(len - start - 1) // step + 1\<close> elements when \<open>start < len\<close> and none otherwise, and
  its j-th element is \<^verbatim>\<open>a[start + j * step]\<close>.
\<close>

definition py_slice_from_step :: "'a list \<Rightarrow> nat \<Rightarrow> nat \<Rightarrow> 'a list" where
  "py_slice_from_step a start step =
     (let slicelength = (if start < length a then (length a - start - 1) div step + 1 else 0)
      in map (\<lambda>j. a ! (start + j * step)) [0..<slicelength])"

text \<open>
  \<^verbatim>\<open>A.dot(B)\<close> for a 2-d \<open>A\<close> and the 2-d \<open>B\<close>: entry (k, i) is the sum over j of
  \<^verbatim>\<open>A[k][j] * B[j][i]\<close>.
\<close>

definition np_dot :: "npfloat list list \<Rightarrow> real list list \<Rightarrow> npfloat list list" where
  "np_dot A B =
     (let ncols = (case B of [] \<Rightarrow> 0 | b # _ \<Rightarrow> length b)
      in map (\<lambda>row. map (\<lambda>i. foldl fadd (Fin 0) (map2 (\<lambda>a brow. fmul a (Fin (brow ! i))) row B))
                        [0..<ncols]) A)"

text \<open>
  \<^verbatim>\<open>np.argmax\<close> on a 1-d float array, as numpy's loop runs: the running maximum \<open>mp\<close>
  starts at the first entry and is replaced by an entry \<open>x\<close> only when \<open>\<not> (x \<le> mp)\<close>; the
  first nan met is maximal and ends the scan. An empty array raises ValueError.
\<close>

fun argmax_from :: "real \<Rightarrow> nat \<Rightarrow> nat \<Rightarrow> npfloat list \<Rightarrow> nat" where
  "argmax_from mp max_ind i [] = max_ind"
| "argmax_from mp max_ind i (NaN # rest) = i"
| "argmax_from mp max_ind i (Fin x # rest) =
     (if \<not> (x \<le> mp) then argmax_from x i (Suc i) rest
      else argmax_from mp max_ind (Suc i) rest)"

definition np_argmax :: "npfloat list \<Rightarrow> error + int" where
  "np_argmax r =
     (case r of
        [] \<Rightarrow> Inl ValueError
      | NaN # _ \<Rightarrow> Inr 0
      | Fin x # rest \<Rightarrow> Inr (int (argmax_from x 0 1 rest)))"

text \<open>
  \<^verbatim>\<open>np.argsort(a)\<close> with the default kind: numpy promises the indices that sort the array
  in ascending order, a permutation of \<open>0..len(a)-1\<close>. The default kind is not stable, so
  the order in which the indices of equal entries come out is not fixed. The function is a
  parameter of the model, and \<open>argsort_contract a idx\<close> says that \<open>idx\<close> is a result numpy
  may return for \<open>a\<close>.
\<close>

definition argsort_contract :: "int list \<Rightarrow> nat list \<Rightarrow> bool" where
  "argsort_contract a idx \<longleftrightarrow> sort idx = [0..<length a] \<and> sorted (map (\<lambda>i. a ! i) idx)"

text \<open>A list comprehension whose element expression may raise: the first exception wins.\<close>

fun collect :: "(error + 'a) list \<Rightarrow> error + 'a list" where
  "collect [] = Inr []"
| "collect (Inl e # rs) = Inl e"
| "collect (Inr x # rs) = (case collect rs of Inl e \<Rightarrow> Inl e | Inr xs \<Rightarrow> Inr (x # xs))"

subsection \<open>Module constants\<close>

definition alpha_freqs :: "real list" where
  "alpha_freqs =
     [8167 / 100000, 1492 / 100000, 2782 / 100000, 4253 / 100000, 12702 / 100000, 2228 / 100000,
      2015 / 100000, 6094 / 100000, 6966 / 100000, 153 / 100000, 772 / 100000, 4025 / 100000,
      2406 / 100000, 6749 / 100000, 7507 / 100000, 1929 / 100000, 95 / 100000, 5987 / 100000,
      6327 / 100000, 9056 / 100000, 2758 / 100000, 978 / 100000, 2360 / 100000, 150 / 100000,
      1974 / 100000, 74 / 100000]"

definition freq_shifts :: "real list list" where
  "freq_shifts = np_hstack (map (\<lambda>i. reshape_col (np_roll alpha_freqs i)) [0..25])"

subsection \<open>Functions\<close>

text \<open>
  \<open>get_cipher_text\<close> takes the text that \<^verbatim>\<open>file.read()\<close> returned, a string of 8-bit
  characters here. Nothing in it raises.
\<close>

definition get_cipher_text :: "string \<Rightarrow> int list" where
  "get_cipher_text contents =
     map (\<lambda>c. int (of_char c) - 65) (filter (\<lambda>c. c \<noteq> CHR 0x0A) contents)"

definition get_shifts :: "int list \<Rightarrow> int \<Rightarrow> int list" where
  "get_shifts ciphertext shift_max =
     map (\<lambda>i. np_count_equal ciphertext (np_roll ciphertext i)) [1..shift_max]"

definition get_buckets :: "int list \<Rightarrow> int \<Rightarrow> int list list" where
  "get_buckets ciphertext key_length =
     map (\<lambda>i. py_slice_from_step ciphertext (nat i) (nat key_length)) [0..key_length - 1]"

text \<open>
  Line 91 of \<open>get_key\<close>: entry (k, c) of \<open>cipher_freqs\<close> is
  \<^verbatim>\<open>np.sum(ct[ct == c]) / len(ct)\<close> for the k-th bucket \<open>ct\<close>. The selection
  \<^verbatim>\<open>ct[ct == c]\<close> holds the elements of the bucket equal to \<open>c\<close>, and \<^verbatim>\<open>np.sum\<close> adds
  them up. On an empty bucket the sum is 0 and numpy's \<open>0 / 0\<close> is nan (with a warning, no
  exception); the divisor is 0 in no other case.
\<close>

definition bucket_freq :: "int list \<Rightarrow> int \<Rightarrow> npfloat" where
  "bucket_freq ct c =
     (let total = sum_list (filter (\<lambda>x. x = c) ct)
      in if length ct = 0 then NaN else Fin (real_of_int total / real (length ct)))"

definition cipher_freqs :: "int list list \<Rightarrow> npfloat list list" where
  "cipher_freqs buckets = map (\<lambda>ct. map (\<lambda>c. bucket_freq ct c) [0..25]) buckets"

text \<open>
  Line 92: \<open>R\<close>, the scores. With no bucket at all \<open>cipher_freqs\<close> is a 1-d array of
  length 0, and its product with the 26 x 26 matrix raises ValueError.
\<close>

definition scores :: "int list list \<Rightarrow> error + npfloat list list" where
  "scores buckets =
     (if buckets = [] then Inl ValueError else Inr (np_dot (cipher_freqs buckets) freq_shifts))"

definition get_key :: "int list list \<Rightarrow> error + int list" where
  "get_key buckets =
     (case scores buckets of
        Inl e \<Rightarrow> Inl e
      | Inr R \<Rightarrow> collect (map np_argmax R))"

definition decode :: "int list \<Rightarrow> int list \<Rightarrow> error + int list" where
  "decode ciphertext key =
     (if ciphertext \<noteq> [] \<and> length key = 0 then Inl ZeroDivisionError
      else Inr (map (\<lambda>i. (26 + ciphertext ! i - key ! (i mod length key)) mod 26)
                    [0..<length ciphertext]))"

text \<open>
  Lines 130 to 132 of the script: the counts of the shifts 1 to 16, and one printed line
  \<^verbatim>\<open>Shift {i+1}: {shifts[i]} coincidences.\<close> for each index of
  \<^verbatim>\<open>np.argsort(shifts)[::-1]\<close>, in that order. A line is modelled by its pair of numbers;
  \<open>argsort\<close> stands for \<^verbatim>\<open>np.argsort\<close>.
\<close>

definition report_lines :: "(int list \<Rightarrow> nat list) \<Rightarrow> int list \<Rightarrow> (int \<times> int) list" where
  "report_lines argsort ciphertext =
     (let shifts = get_shifts ciphertext 16
      in map (\<lambda>i. (int i + 1, shifts ! i)) (rev (argsort shifts)))"

subsection \<open>The score vector in the words of the specification\<close>

text \<open>
  These two definitions follow the specification, not the code, and serve to compare
  \<open>get_key\<close> with it. The empirical frequency vector of a bucket has at entry \<open>c\<close> the
  number of occurrences of Letter Code \<open>c\<close> in the bucket divided by the bucket length; the
  score vector is that vector, as a row, times the shift-correlation matrix.
\<close>

definition spec_empirical_freqs :: "int list \<Rightarrow> real list" where
  "spec_empirical_freqs bucket =
     map (\<lambda>c. real (count_list bucket c) / real (length bucket)) [0..25]"

definition spec_scores :: "int list \<Rightarrow> real list" where
  "spec_scores bucket =
     map (\<lambda>i. sum_list (map2 (\<lambda>f row. f * row ! i) (spec_empirical_freqs bucket) freq_shifts))
         [0..<26]"

section \<open>Properties\<close>

subsection \<open>The decoder\<close>

lemma unshift_shifted:
  assumes "0 \<le> p" and "p \<le> 25"
  shows "(26 + (p + k) mod 26 - k) mod 26 = (p::int)"
proof -
  have "(26 + (p + k) mod 26 - k) mod 26 = ((p + k) mod 26 - k + 26) mod 26"
    by (simp add: algebra_simps)
  also have "\<dots> = ((p + k) mod 26 - k) mod 26" by simp
  also have "\<dots> = (p + k - k) mod 26" by (rule mod_diff_left_eq)
  also have "\<dots> = p" using assms by simp
  finally show ?thesis .
qed

text \<open>
  Claim C2. Let \<open>P\<close> be a plaintext of Letter Codes (every element in 0..25) and \<open>K\<close> a key
  with at least one element. Decoding the sequence whose i-th element is
  \<open>(P[i] + K[i mod |K|]) mod 26\<close> with \<open>K\<close> returns \<open>P\<close>, whatever the length of \<open>P\<close>.
  The key's elements need not be Letter Codes for this.
\<close>

theorem decode_roundtrip:
  assumes "\<forall>x\<in>set P. 0 \<le> x \<and> x \<le> 25" and "K \<noteq> []"
  shows "decode (map (\<lambda>i. (P ! i + K ! (i mod length K)) mod 26) [0..<length P]) K = Inr P"
proof -
  let ?C = "map (\<lambda>i. (P ! i + K ! (i mod length K)) mod 26) [0..<length P]"
  have "map (\<lambda>i. (26 + ?C ! i - K ! (i mod length K)) mod 26) [0..<length ?C] =
        map (\<lambda>i. (26 + (P ! i + K ! (i mod length K)) mod 26 - K ! (i mod length K)) mod 26)
          [0..<length P]"
    by (simp cong: map_cong)
  also have "\<dots> = map (\<lambda>i. P ! i) [0..<length P]"
  proof (rule map_cong[OF refl])
    fix i assume "i \<in> set [0..<length P]"
    then have "P ! i \<in> set P" by simp
    with assms(1) have "0 \<le> P ! i" and "P ! i \<le> 25" by auto
    then show "(26 + (P ! i + K ! (i mod length K)) mod 26 - K ! (i mod length K)) mod 26 = P ! i"
      by (rule unshift_shifted)
  qed
  also have "\<dots> = P" by (rule map_nth)
  finally show ?thesis using assms(2) by (simp add: decode_def)
qed

theorem decode_roundtrip_witness:
  "decode (map (\<lambda>i. ([7, 4, 11, 11, 14] ! i + [10, 4, 24] ! (i mod length [10, 4, 24 :: int])) mod 26)
             [0..<length [7, 4, 11, 11, 14 :: int]]) [10, 4, 24]
   = Inr [7, 4, 11, 11, 14]"
  using decode_roundtrip [of "[7, 4, 11, 11, 14]" "[10, 4, 24]"] by simp

text \<open>
  Claim C10. For every ciphertext of arbitrary integers and every non-empty key of
  arbitrary integers, \<open>decode\<close> returns a list (it does not raise), of the ciphertext's length,
  and every element of it lies in 0..25.
\<close>

theorem decode_in_range:
  assumes "key \<noteq> []"
  shows "\<exists>out. decode ciphertext key = Inr out \<and> length out = length ciphertext
            \<and> (\<forall>x\<in>set out. 0 \<le> x \<and> x \<le> 25)"
  using assms by (auto simp: decode_def)

theorem decode_in_range_witness:
  "\<exists>out. decode [100, - 3, 7] [5, 300] = Inr out \<and> length out = length [100, - 3, 7 :: int]
            \<and> (\<forall>x\<in>set out. 0 \<le> x \<and> x \<le> 25)"
  using decode_in_range [of "[5, 300]" "[100, - 3, 7]"] by simp

subsection \<open>Rolling and the shift-correlation matrix\<close>

lemma np_roll_length: "length (np_roll a k) = length a"
  by (auto simp: np_roll_def Let_def)

lemma np_roll_nth:
  assumes "j < length a"
  shows "np_roll a k ! j = a ! nat ((int j - k) mod int (length a))"
proof -
  let ?n = "length a"
  let ?off = "nat (k mod int ?n)"
  have npos: "0 < int ?n" using assms by (cases a) auto
  have off_lt: "?off < ?n" using npos by (simp add: nat_less_iff)
  have off_int: "int ?off = k mod int ?n" using npos by simp
  have roll: "np_roll a k = drop (?n - ?off) a @ take (?n - ?off) a"
    using assms by (auto simp: np_roll_def Let_def)
  show ?thesis
  proof (cases "j < ?off")
    case True
    have "(int j - k) mod int ?n = (int j - k mod int ?n) mod int ?n"
      by (simp add: mod_diff_right_eq)
    also have "\<dots> = (int j - int ?off + int ?n) mod int ?n"
      using off_int by simp
    also have "\<dots> = int j - int ?off + int ?n"
      using True assms off_lt by (intro mod_pos_pos_trivial) auto
    finally have "nat ((int j - k) mod int ?n) = ?n - ?off + j"
      using True off_lt by linarith
    moreover have "np_roll a k ! j = a ! (?n - ?off + j)"
      using True off_lt by (simp add: roll nth_append)
    ultimately show ?thesis by simp
  next
    case False
    have "(int j - k) mod int ?n = (int j - k mod int ?n) mod int ?n"
      by (simp add: mod_diff_right_eq)
    also have "\<dots> = (int j - int ?off) mod int ?n"
      using off_int by simp
    also have "\<dots> = int j - int ?off"
      using False assms by (intro mod_pos_pos_trivial) auto
    finally have "nat ((int j - k) mod int ?n) = j - ?off"
      using False by linarith
    moreover have "np_roll a k ! j = a ! (j - ?off)"
      using False off_lt assms by (simp add: roll nth_append min_def)
    ultimately show ?thesis by simp
  qed
qed

lemma np_roll_back: "np_roll (np_roll a k) (- k) = a"
proof (rule nth_equalityI)
  show "length (np_roll (np_roll a k) (- k)) = length a" by (simp add: np_roll_length)
next
  fix j assume "j < length (np_roll (np_roll a k) (- k))"
  then have j: "j < length a" by (simp add: np_roll_length)
  let ?n = "int (length a)"
  let ?m = "(int j + k) mod ?n"
  have npos: "0 < ?n" using j by (cases a) auto
  have m: "0 \<le> ?m" "?m < ?n" using npos by simp_all
  have "np_roll (np_roll a k) (- k) ! j = np_roll a k ! nat ?m"
    using j by (simp add: np_roll_nth np_roll_length)
  also have "\<dots> = a ! nat ((int (nat ?m) - k) mod ?n)"
    using m by (intro np_roll_nth) simp
  also have "(int (nat ?m) - k) mod ?n = (?m - k) mod ?n" using m by simp
  also have "\<dots> = (int j + k - k) mod ?n" by (rule mod_diff_left_eq)
  also have "\<dots> = int j" using j by simp
  finally show "np_roll (np_roll a k) (- k) ! j = a ! j" by simp
qed

lemma np_hstack_columns:
  assumes "vs \<noteq> []" and "\<forall>v\<in>set vs. length v = n"
  shows "np_hstack (map reshape_col vs) = map (\<lambda>j. map (\<lambda>v. v ! j) vs) [0..<n]"
  using assms
proof (induction vs rule: list_nonempty_induct)
  case (single v)
  then show ?case by (auto simp: reshape_col_def intro!: nth_equalityI)
next
  case (cons v vs)
  then obtain w ws where vs: "vs = w # ws" by (cases vs) auto
  have "np_hstack (map reshape_col (v # vs)) = map2 (@) (reshape_col v) (np_hstack (map reshape_col vs))"
    by (simp add: vs)
  also have "\<dots> = map2 (@) (reshape_col v) (map (\<lambda>j. map (\<lambda>v. v ! j) vs) [0..<n])"
    using cons by simp
  also have "\<dots> = map (\<lambda>j. map (\<lambda>v. v ! j) (v # vs)) [0..<n]"
    using cons.prems by (auto simp: reshape_col_def intro!: nth_equalityI)
  finally show ?case .
qed

lemma length_alpha_freqs: "length alpha_freqs = 26"
  by (simp add: alpha_freqs_def)

lemma freq_shifts_rows:
  "freq_shifts = map (\<lambda>j. map (\<lambda>i. np_roll alpha_freqs i ! j) [0..25]) [0..<26]"
proof -
  have "freq_shifts = np_hstack (map reshape_col (map (np_roll alpha_freqs) [0..25]))"
    by (simp add: freq_shifts_def comp_def)
  also have "\<dots> = map (\<lambda>j. map (\<lambda>v. v ! j) (map (np_roll alpha_freqs) [0..25])) [0..<26]"
    by (rule np_hstack_columns) (auto simp: np_roll_length length_alpha_freqs)
  finally show ?thesis by (simp add: comp_def)
qed

lemma freq_shifts_entry:
  assumes "j < 26" and "i < 26"
  shows "freq_shifts ! j ! i = alpha_freqs ! nat ((int j - int i) mod 26)"
proof -
  have "[0..25] ! i = int i" using assms(2) by (simp add: nth_upto)
  then have "freq_shifts ! j ! i = np_roll alpha_freqs (int i) ! j"
    using assms by (simp add: freq_shifts_rows)
  also have "\<dots> = alpha_freqs ! nat ((int j - int i) mod 26)"
    using assms(1) by (simp add: np_roll_nth length_alpha_freqs)
  finally show ?thesis .
qed

text \<open>
  Claim C5. The shift-correlation matrix has 26 rows of 26 entries, and for every \<open>i\<close> in
  0..25: the entry at row \<open>j\<close>, column \<open>i\<close> is the reference distribution at index
  \<open>(j - i) mod 26\<close>; column \<open>i\<close> is the reference distribution rolled right by \<open>i\<close>; and
  rolling column \<open>i\<close> back by \<open>i\<close> gives the reference distribution.
\<close>

theorem freq_shifts_columns:
  "length freq_shifts = 26 \<and>
   (\<forall>i<26. (\<forall>j<26. length (freq_shifts ! j) = 26 \<and>
               freq_shifts ! j ! i = alpha_freqs ! nat ((int j - int i) mod 26)) \<and>
           map (\<lambda>row. row ! i) freq_shifts = np_roll alpha_freqs (int i) \<and>
           np_roll (map (\<lambda>row. row ! i) freq_shifts) (- int i) = alpha_freqs)"
proof -
  have len: "length freq_shifts = 26" by (simp add: freq_shifts_rows)
  have col: "map (\<lambda>row. row ! i) freq_shifts = np_roll alpha_freqs (int i)" if "i < 26" for i
  proof (rule nth_equalityI)
    show "length (map (\<lambda>row. row ! i) freq_shifts) = length (np_roll alpha_freqs (int i))"
      by (simp add: len np_roll_length length_alpha_freqs)
  next
    fix j assume "j < length (map (\<lambda>row. row ! i) freq_shifts)"
    then have j: "j < 26" by (simp add: len)
    have "[0..25] ! i = int i" using that by (simp add: nth_upto)
    then show "map (\<lambda>row. row ! i) freq_shifts ! j = np_roll alpha_freqs (int i) ! j"
      using j that by (simp add: freq_shifts_rows)
  qed
  have rowlen: "length (freq_shifts ! j) = 26" if "j < 26" for j
    using that by (simp add: freq_shifts_rows)
  show ?thesis
    using len col rowlen freq_shifts_entry by (simp add: np_roll_back)
qed

theorem freq_shifts_columns_witness:
  "freq_shifts ! 2 ! 5 = alpha_freqs ! 23 \<and>
   map (\<lambda>row. row ! 5) freq_shifts = np_roll alpha_freqs 5 \<and>
   np_roll (map (\<lambda>row. row ! 5) freq_shifts) (- 5) = alpha_freqs"
proof -
  have "(5::nat) < 26" and "(2::nat) < 26" by simp_all
  with freq_shifts_columns show ?thesis by fastforce
qed

subsection \<open>Normalization\<close>

text \<open>
  Claim C7 says that normalization fails with an InvalidInputError on a character outside
  A..Z. \<open>get_cipher_text\<close> has no check and raises nothing: on the text \<open>a1\<close> it returns the
  codes 32 and -16.
\<close>

theorem get_cipher_text_counterexample:
  "get_cipher_text ''a1'' = [32, - 16]"
  by (simp add: get_cipher_text_def)

text \<open>
  Claim C7, amended. For every raw input string, \<open>get_cipher_text\<close> returns a list: one
  code for each character other than the line feed, in order, equal to the character's
  ordinal minus 65. Every produced code lies in 0..25 exactly when every character other than
  the line feed is an uppercase letter A..Z; any other character gives a code outside 0..25
  in the output.
\<close>

theorem get_cipher_text_total:
  "length (get_cipher_text contents) = length (filter (\<lambda>c. c \<noteq> CHR 0x0A) contents) \<and>
   (\<forall>k<length (get_cipher_text contents).
      get_cipher_text contents ! k = int (of_char (filter (\<lambda>c. c \<noteq> CHR 0x0A) contents ! k)) - 65) \<and>
   ((\<forall>x\<in>set (get_cipher_text contents). 0 \<le> x \<and> x \<le> 25) \<longleftrightarrow>
    (\<forall>c\<in>set contents. c = CHR 0x0A \<or> (65 \<le> (of_char c :: nat) \<and> (of_char c :: nat) \<le> 90)))"
  by (auto simp: get_cipher_text_def)

theorem get_cipher_text_total_witness:
  "get_cipher_text [CHR ''A'', CHR 0x0A, CHR ''Z'', CHR ''b''] = [0, 25, 33]"
  using get_cipher_text_total [of "[CHR ''A'', CHR 0x0A, CHR ''Z'', CHR ''b'']"]
  by (simp add: get_cipher_text_def)

subsection \<open>Coincidence counts\<close>

lemma np_count_equal_card:
  assumes "length b = length a"
  shows "np_count_equal a b = int (card {j. j < length a \<and> a ! j = b ! j})"
proof -
  have "{i. i < length (zip a b) \<and> (case zip a b ! i of (x, y) \<Rightarrow> x = y)}
        = {j. j < length a \<and> a ! j = b ! j}"
    using assms by auto
  then show ?thesis
    by (simp add: np_count_equal_def length_filter_conv_card)
qed

lemma count_upt_card:
  "length (filter P [0..<n]) = card {i. i < n \<and> P i}"
proof -
  have "{i. i < length [0..<n] \<and> P ([0..<n] ! i)} = {i. i < n \<and> P i}" by auto
  then show ?thesis by (simp add: length_filter_conv_card)
qed

lemma shift_forth_back:
  assumes "i < n" and "0 \<le> s"
  shows "nat ((int ((i + nat s) mod n) - s) mod int n) = i"
proof -
  have "int ((i + nat s) mod n) = (int i + s) mod int n"
    using assms(2) by (simp add: zmod_int)
  then have "(int ((i + nat s) mod n) - s) mod int n = ((int i + s) mod int n - s) mod int n"
    by simp
  also have "\<dots> = (int i + s - s) mod int n" by (rule mod_diff_left_eq)
  also have "\<dots> = int i" using assms(1) by simp
  finally show ?thesis by simp
qed

lemma shift_back_forth:
  assumes "j < n" and "0 \<le> s"
  shows "(nat ((int j - s) mod int n) + nat s) mod n = j"
proof -
  have npos: "0 < int n" using assms(1) by simp
  then have nonneg: "0 \<le> (int j - s) mod int n" by simp
  have "int ((nat ((int j - s) mod int n) + nat s) mod n)
        = ((int j - s) mod int n + s) mod int n"
    using nonneg assms(2) by (simp add: zmod_int)
  also have "\<dots> = (int j - s + s) mod int n" by (rule mod_add_left_eq)
  also have "\<dots> = int j" using assms(1) by simp
  finally show ?thesis by linarith
qed

lemma rolled_matches_card:
  assumes "0 \<le> s"
  shows "card {j. j < length a \<and> a ! j = a ! nat ((int j - s) mod int (length a))}
       = card {i. i < length a \<and> a ! i = a ! ((i + nat s) mod length a)}"
    (is "card ?A = card ?B")
proof -
  let ?n = "length a"
  let ?f = "\<lambda>i. (i + nat s) mod ?n"
  let ?g = "\<lambda>j. nat ((int j - s) mod int ?n)"
  have "bij_betw ?f ?B ?A"
  proof (rule bij_betw_byWitness[where f' = ?g])
    show "\<forall>i\<in>?B. ?g (?f i) = i" using assms by (simp add: shift_forth_back)
    show "\<forall>j\<in>?A. ?f (?g j) = j" using assms by (simp add: shift_back_forth)
    show "?f ` ?B \<subseteq> ?A"
    proof
      fix j assume "j \<in> ?f ` ?B"
      then obtain i where i: "i < ?n" "a ! i = a ! ?f i" and j: "j = ?f i" by auto
      have "j < ?n" using i(1) j by (cases a) auto
      moreover have "?g j = i" using i(1) j assms by (simp add: shift_forth_back)
      ultimately show "j \<in> ?A" using i(2) j by simp
    qed
    show "?g ` ?A \<subseteq> ?B"
    proof
      fix i assume "i \<in> ?g ` ?A"
      then obtain j where j: "j < ?n" "a ! j = a ! ?g j" and i: "i = ?g j" by auto
      have npos: "0 < int ?n" using j(1) by (cases a) auto
      then have "(int j - s) mod int ?n < int ?n" by (rule pos_mod_bound)
      moreover from npos have "0 \<le> (int j - s) mod int ?n" by simp
      ultimately have "i < ?n" using i by (simp add: nat_less_iff)
      moreover have "?f i = j" using j(1) i assms by (simp add: shift_back_forth)
      ultimately show "i \<in> ?B" using j(2) i by simp
    qed
  qed
  then show ?thesis by (simp add: bij_betw_same_card)
qed

text \<open>
  Claim C3. For a ciphertext of length \<open>N \<ge> 1\<close> and a shift \<open>s\<close> with
  \<open>1 \<le> s \<le> shift_max\<close>, \<open>get_shifts\<close> returns \<open>shift_max\<close> counts, one for each shift
  1..shift_max in order, and the count of shift \<open>s\<close> (at index \<open>s - 1\<close>) is the number of
  positions \<open>i\<close> in \<open>[0, N)\<close> with \<open>ciphertext[i] = ciphertext[(i + s) mod N]\<close>.
\<close>

theorem get_shifts_counts:
  assumes "ciphertext \<noteq> []" and "1 \<le> s" and "s \<le> shift_max"
  shows "length (get_shifts ciphertext shift_max) = nat shift_max \<and>
         get_shifts ciphertext shift_max ! nat (s - 1) =
           int (length (filter (\<lambda>i. ciphertext ! i = ciphertext ! ((i + nat s) mod length ciphertext))
                               [0..<length ciphertext]))"
proof -
  have len: "length (get_shifts ciphertext shift_max) = nat shift_max"
    by (simp add: get_shifts_def)
  have idx: "[1..shift_max] ! nat (s - 1) = s"
    using assms(2,3) by (simp add: nth_upto)
  have "get_shifts ciphertext shift_max ! nat (s - 1) = np_count_equal ciphertext (np_roll ciphertext s)"
    using assms(2,3) idx by (simp add: get_shifts_def)
  also have "\<dots> = int (card {j. j < length ciphertext \<and> ciphertext ! j = np_roll ciphertext s ! j})"
    by (rule np_count_equal_card) (simp add: np_roll_length)
  also have "{j. j < length ciphertext \<and> ciphertext ! j = np_roll ciphertext s ! j}
      = {j. j < length ciphertext \<and>
            ciphertext ! j = ciphertext ! nat ((int j - s) mod int (length ciphertext))}"
    by (auto simp: np_roll_nth)
  also have "card \<dots> = card {i. i < length ciphertext \<and>
            ciphertext ! i = ciphertext ! ((i + nat s) mod length ciphertext)}"
    using assms(2) by (intro rolled_matches_card) simp
  also have "\<dots> = length (filter (\<lambda>i. ciphertext ! i = ciphertext ! ((i + nat s) mod length ciphertext))
                               [0..<length ciphertext])"
    by (rule count_upt_card[symmetric])
  finally show ?thesis using len by simp
qed

theorem get_shifts_counts_witness:
  "length (get_shifts [0, 1, 0, 1, 2] 6) = 6 \<and> get_shifts [0, 1, 0, 1, 2] 6 ! 1 = 2"
proof -
  have count: "length (filter (\<lambda>i. [0, 1, 0, 1, 2 :: int] ! i =
                  [0, 1, 0, 1, 2] ! ((i + nat 2) mod length [0, 1, 0, 1, 2 :: int]))
                [0..<length [0, 1, 0, 1, 2 :: int]]) = 2"
    by code_simp
  have "[0, 1, 0, 1, 2] \<noteq> ([] :: int list)" and "(1::int) \<le> 2" and "(2::int) \<le> 6" by simp_all
  from get_shifts_counts [OF this, unfolded count] show ?thesis by simp
qed

subsection \<open>Buckets\<close>

lemma slice_length:
  "length (py_slice_from_step a start step) =
     (if start < length a then (length a - start - 1) div step + 1 else 0)"
  by (simp add: py_slice_from_step_def)

lemma slice_nth:
  assumes "j < length (py_slice_from_step a start step)"
  shows "py_slice_from_step a start step ! j = a ! (start + j * step)"
  using assms by (simp add: py_slice_from_step_def Let_def split: if_splits)

lemma slice_index_bound:
  assumes "0 < step"
  shows "j < length (py_slice_from_step a start step) \<longleftrightarrow> start + j * step < length a"
proof (cases "start < length a")
  case True
  have "j < (length a - start - 1) div step + 1 \<longleftrightarrow> j \<le> (length a - start - 1) div step"
    by linarith
  also have "\<dots> \<longleftrightarrow> j * step \<le> length a - start - 1"
    using assms by (rule less_eq_div_iff_mult_less_eq)
  also have "\<dots> \<longleftrightarrow> start + j * step < length a"
    using True by linarith
  finally show ?thesis using True by (simp add: slice_length)
next
  case False
  then show ?thesis by (simp add: slice_length)
qed

lemma get_buckets_length: "length (get_buckets ciphertext L) = nat L"
  by (simp add: get_buckets_def)

lemma get_buckets_nth:
  assumes "p < nat L"
  shows "get_buckets ciphertext L ! p = py_slice_from_step ciphertext p (nat L)"
proof -
  have "[0..L - 1] ! p = int p" using assms by (simp add: nth_upto)
  then show ?thesis using assms by (simp add: get_buckets_def)
qed

lemma bucket_position_unique:
  assumes "p < L" and "p + j * L = (i::nat)"
  shows "p = i mod L \<and> j = i div L"
proof -
  have "i mod L = p" using assms by (simp add: assms(2)[symmetric])
  moreover have "i div L = j" using assms by (simp add: assms(2)[symmetric])
  ultimately show ?thesis by simp
qed

lemma bucket_lengths_sum:
  assumes "0 < L"
  shows "(\<Sum>p<L. length (py_slice_from_step a p L)) = length a"
proof -
  let ?len = "\<lambda>p. length (py_slice_from_step a p L)"
  let ?S = "SIGMA p:{..<L}. {..<?len p}"
  let ?f = "\<lambda>(p, j). p + j * L"
  have "bij_betw ?f ?S {..<length a}"
  proof (rule bij_betw_byWitness[where f' = "\<lambda>i. (i mod L, i div L)"])
    show "\<forall>x\<in>?S. (\<lambda>i. (i mod L, i div L)) (?f x) = x"
      by auto
    show "\<forall>i\<in>{..<length a}. ?f (i mod L, i div L) = i"
      by simp
    show "?f ` ?S \<subseteq> {..<length a}"
      using assms by (auto simp: slice_index_bound)
    show "(\<lambda>i. (i mod L, i div L)) ` {..<length a} \<subseteq> ?S"
      using assms by (auto simp: slice_index_bound)
  qed
  then have "card ?S = length a" by (simp add: bij_betw_same_card)
  then show ?thesis by simp
qed

lemma get_buckets_total_length:
  assumes "1 \<le> L"
  shows "sum_list (map length (get_buckets ciphertext L)) = length ciphertext"
proof -
  have "sum_list (map length (get_buckets ciphertext L))
        = (\<Sum>p = 0..<nat L. length (get_buckets ciphertext L ! p))"
    by (simp add: sum_list_sum_nth get_buckets_length)
  also have "\<dots> = (\<Sum>p = 0..<nat L. length (py_slice_from_step ciphertext p (nat L)))"
    by (rule sum.cong) (simp_all add: get_buckets_nth)
  also have "\<dots> = (\<Sum>p<nat L. length (py_slice_from_step ciphertext p (nat L)))"
    by (simp add: atLeast0LessThan)
  also have "\<dots> = length ciphertext"
    using assms by (intro bucket_lengths_sum) simp
  finally show ?thesis .
qed

text \<open>
  Claim C9. For a ciphertext of length \<open>N\<close> and a key length \<open>L \<ge> 1\<close>, \<open>get_buckets\<close>
  returns exactly \<open>L\<close> buckets; bucket \<open>p\<close> holds, in order, the elements at the indices
  \<open>p, p + L, p + 2L, \<dots>\<close> below \<open>N\<close>; every index below \<open>N\<close> is position \<open>j\<close> of bucket
  \<open>p\<close> for exactly one pair, \<open>p = i mod L\<close> and \<open>j = i div L\<close>, so the buckets are disjoint
  as index sets and cover \<open>[0, N)\<close>; the bucket lengths add up to \<open>N\<close>; and reading the
  buckets round robin (element \<open>i div L\<close> of bucket \<open>i mod L\<close>) gives the ciphertext back.
\<close>

theorem get_buckets_partition:
  assumes "1 \<le> L"
  shows "length (get_buckets ciphertext L) = nat L \<and>
         (\<forall>p<nat L. \<forall>j.
            (j < length (get_buckets ciphertext L ! p) \<longleftrightarrow> p + j * nat L < length ciphertext) \<and>
            (j < length (get_buckets ciphertext L ! p) \<longrightarrow>
               get_buckets ciphertext L ! p ! j = ciphertext ! (p + j * nat L))) \<and>
         (\<forall>i<length ciphertext. \<forall>p j.
            (p < nat L \<and> j < length (get_buckets ciphertext L ! p) \<and> p + j * nat L = i)
              \<longleftrightarrow> (p = i mod nat L \<and> j = i div nat L)) \<and>
         sum_list (map length (get_buckets ciphertext L)) = length ciphertext \<and>
         map (\<lambda>i. get_buckets ciphertext L ! (i mod length (get_buckets ciphertext L))
                                         ! (i div length (get_buckets ciphertext L)))
             [0..<sum_list (map length (get_buckets ciphertext L))] = ciphertext"
proof -
  let ?bs = "get_buckets ciphertext L"
  let ?L = "nat L"
  have Lpos: "0 < ?L" using assms by simp
  have bound: "j < length (?bs ! p) \<longleftrightarrow> p + j * ?L < length ciphertext" if "p < ?L" for p j
    using that Lpos by (simp add: get_buckets_nth slice_index_bound)
  have entry: "?bs ! p ! j = ciphertext ! (p + j * ?L)" if "p < ?L" "j < length (?bs ! p)" for p j
    using that by (simp add: get_buckets_nth slice_nth)
  have uniq: "(p < ?L \<and> j < length (?bs ! p) \<and> p + j * ?L = i) \<longleftrightarrow> (p = i mod ?L \<and> j = i div ?L)"
    if "i < length ciphertext" for i p j
  proof
    assume "p < ?L \<and> j < length (?bs ! p) \<and> p + j * ?L = i"
    then show "p = i mod ?L \<and> j = i div ?L" by (intro bucket_position_unique) simp_all
  next
    assume pj: "p = i mod ?L \<and> j = i div ?L"
    then have p: "p < ?L" and sum: "p + j * ?L = i" using Lpos by simp_all
    from bound[OF p, of j] sum that have "j < length (?bs ! p)" by simp
    with p sum show "p < ?L \<and> j < length (?bs ! p) \<and> p + j * ?L = i" by simp
  qed
  have total: "sum_list (map length ?bs) = length ciphertext"
    using assms by (rule get_buckets_total_length)
  have inter: "map (\<lambda>i. ?bs ! (i mod length ?bs) ! (i div length ?bs)) [0..<sum_list (map length ?bs)]
               = ciphertext"
  proof (rule nth_equalityI)
    show "length (map (\<lambda>i. ?bs ! (i mod length ?bs) ! (i div length ?bs))
            [0..<sum_list (map length ?bs)]) = length ciphertext"
      by (simp add: total)
  next
    fix i assume "i < length (map (\<lambda>i. ?bs ! (i mod length ?bs) ! (i div length ?bs))
            [0..<sum_list (map length ?bs)])"
    then have i: "i < length ciphertext" by (simp add: total)
    have p: "i mod ?L < ?L" using Lpos by simp
    from uniq[OF i, of "i mod ?L" "i div ?L"] have "i div ?L < length (?bs ! (i mod ?L))" by simp
    from entry[OF p this] have "?bs ! (i mod ?L) ! (i div ?L) = ciphertext ! i" by simp
    then show "map (\<lambda>i. ?bs ! (i mod length ?bs) ! (i div length ?bs))
            [0..<sum_list (map length ?bs)] ! i = ciphertext ! i"
      using i by (simp add: total get_buckets_length)
  qed
  show ?thesis
    using bound entry uniq total inter by (simp add: get_buckets_length)
qed

theorem get_buckets_partition_witness:
  "get_buckets [0, 1, 2, 3, 4, 5, 6] 3 = [[0, 3, 6], [1, 4], [2, 5]] \<and>
   map (\<lambda>i. get_buckets [0, 1, 2, 3, 4, 5, 6] 3 ! (i mod length (get_buckets [0, 1, 2, 3, 4, 5, 6] 3))
                                          ! (i div length (get_buckets [0, 1, 2, 3, 4, 5, 6] 3)))
       [0..<sum_list (map length (get_buckets [0, 1, 2, 3, 4, 5, 6] 3))] = [0, 1, 2, 3, 4, 5, 6]"
proof -
  have "get_buckets [0, 1, 2, 3, 4, 5, 6] 3 = [[0, 3, 6], [1, 4], [2, 5]]"
    by code_simp
  moreover have "(1::int) \<le> 3" by simp
  note get_buckets_partition [OF this, of "[0, 1, 2, 3, 4, 5, 6]"]
  ultimately show ?thesis by blast
qed

subsection \<open>The printed coincidence profile\<close>

lemma get_shifts_length: "length (get_shifts ciphertext m) = nat m"
  by (simp add: get_shifts_def)

lemma argsort_contract_set:
  assumes "argsort_contract a idx"
  shows "set idx = {0..<length a}"
proof -
  have "set idx = set (sort idx)" by simp
  also have "\<dots> = set [0..<length a]" using assms by (simp only: argsort_contract_def)
  finally show ?thesis by simp
qed

lemma argsort_contract_distinct:
  assumes "argsort_contract a idx"
  shows "distinct idx"
proof -
  have "distinct (sort idx)" using assms by (simp only: argsort_contract_def distinct_upt)
  then show ?thesis by simp
qed

lemma argsort_contract_length:
  assumes "argsort_contract a idx"
  shows "length idx = length a"
proof -
  have "length idx = length (sort idx)" by simp
  also have "\<dots> = length [0..<length a]" using assms by (simp only: argsort_contract_def)
  finally show ?thesis by simp
qed

lemma argsort_contract_descending:
  assumes "argsort_contract a idx"
  shows "sorted_wrt (\<lambda>x y. a ! x \<ge> a ! y) (rev idx)"
proof -
  have "sorted_wrt (\<lambda>x y. a ! x \<le> a ! y) idx"
    using assms by (simp add: argsort_contract_def sorted_wrt_map)
  then show ?thesis by (simp add: sorted_wrt_rev)
qed

text \<open>
  Claim C4, amended. Whatever order \<^verbatim>\<open>np.argsort\<close> gives to equal counts, the printed
  coincidence profile has one line for each shift 1..16, each shift once and with its own
  count, and it is sorted by descending count. Nothing is said about the order of two shifts
  with equal counts: the code has no tie-break, and that order is the reverse of the one
  \<^verbatim>\<open>np.argsort\<close> happens to return.
\<close>

theorem report_lines_order:
  assumes "argsort_contract (get_shifts ciphertext 16) (argsort (get_shifts ciphertext 16))"
  shows "sorted_wrt (\<lambda>(s1, c1) (s2, c2). c1 \<ge> c2) (report_lines argsort ciphertext) \<and>
         length (report_lines argsort ciphertext) = 16 \<and>
         distinct (map fst (report_lines argsort ciphertext)) \<and>
         fst ` set (report_lines argsort ciphertext) = {1..16} \<and>
         (\<forall>(s, c)\<in>set (report_lines argsort ciphertext). c = get_shifts ciphertext 16 ! nat (s - 1))"
proof -
  let ?v = "get_shifts ciphertext 16"
  let ?idx = "rev (argsort ?v)"
  have rl: "report_lines argsort ciphertext = map (\<lambda>i. (int i + 1, ?v ! i)) ?idx"
    by (simp add: report_lines_def Let_def)
  have len: "length ?v = 16" by (simp add: get_shifts_length)
  have base: "sorted_wrt (\<lambda>x y. ?v ! x \<ge> ?v ! y) ?idx"
    using assms by (rule argsort_contract_descending)
  have "sorted_wrt (\<lambda>x y. (\<lambda>(s1, c1) (s2, c2). c1 \<ge> c2)
                            (int x + 1, ?v ! x) (int y + 1, ?v ! y)) ?idx"
    by (rule sorted_wrt_mono_rel[OF _ base]) auto
  then have sorted: "sorted_wrt (\<lambda>(s1, c1) (s2, c2). c1 \<ge> c2) (report_lines argsort ciphertext)"
    by (simp only: rl sorted_wrt_map)
  have length: "length (report_lines argsort ciphertext) = 16"
    unfolding rl using argsort_contract_length[OF assms] len by simp
  have "map fst (report_lines argsort ciphertext) = map (\<lambda>i. int i + 1) ?idx"
    unfolding rl by (simp add: comp_def)
  moreover have "distinct (map (\<lambda>i. int i + 1) ?idx)"
    using argsort_contract_distinct[OF assms] by (simp add: distinct_map inj_on_def)
  ultimately have dist: "distinct (map fst (report_lines argsort ciphertext))" by simp
  have "fst ` set (report_lines argsort ciphertext) = (\<lambda>i. int i + 1) ` {0..<16}"
    unfolding rl using argsort_contract_set[OF assms] len by (simp add: image_image)
  also have "\<dots> = {1..16}"
  proof
    show "(\<lambda>i. int i + 1) ` {0..<16} \<subseteq> {1..16}" by auto
    show "{1..16} \<subseteq> (\<lambda>i. int i + 1) ` {0..<16}"
    proof
      fix s :: int assume "s \<in> {1..16}"
      then have "nat (s - 1) \<in> {0..<16}" and "s = int (nat (s - 1)) + 1" by auto
      then show "s \<in> (\<lambda>i. int i + 1) ` {0..<16}" by (rule rev_image_eqI)
    qed
  qed
  finally have shifts: "fst ` set (report_lines argsort ciphertext) = {1..16}" .
  have counts: "\<forall>(s, c)\<in>set (report_lines argsort ciphertext). c = ?v ! nat (s - 1)"
    unfolding rl by auto
  from sorted length dist shifts counts show ?thesis by simp
qed

text \<open>
  The witness takes an order that numpy may return for the counts of the ciphertext
  \<open>ABABAAC\<close> and that mixes the indices of equal counts.
\<close>

theorem report_lines_order_witness:
  "report_lines (\<lambda>a. [5, 0, 14, 7, 12, 3, 10, 2, 9, 8, 15, 1, 11, 4, 13, 6]) [0, 1, 0, 1, 0, 0, 2] =
     [(7, 7), (14, 7), (5, 4), (12, 4), (2, 4), (16, 4), (9, 4), (10, 2),
      (3, 2), (11, 2), (4, 2), (13, 1), (8, 1), (15, 1), (1, 1), (6, 1)] \<and>
   sorted_wrt (\<lambda>(s1, c1) (s2, c2). c1 \<ge> c2)
     (report_lines (\<lambda>a. [5, 0, 14, 7, 12, 3, 10, 2, 9, 8, 15, 1, 11, 4, 13, 6]) [0, 1, 0, 1, 0, 0, 2])"
proof -
  have lines: "report_lines (\<lambda>a. [5, 0, 14, 7, 12, 3, 10, 2, 9, 8, 15, 1, 11, 4, 13, 6])
      [0, 1, 0, 1, 0, 0, 2] =
     [(7, 7), (14, 7), (5, 4), (12, 4), (2, 4), (16, 4), (9, 4), (10, 2),
      (3, 2), (11, 2), (4, 2), (13, 1), (8, 1), (15, 1), (1, 1), (6, 1)]"
    by code_simp
  have "argsort_contract (get_shifts [0, 1, 0, 1, 0, 0, 2] 16)
          ((\<lambda>a. [5, 0, 14, 7, 12, 3, 10, 2, 9, 8, 15, 1, 11, 4, 13, 6])
             (get_shifts [0, 1, 0, 1, 0, 0, 2] 16))"
    by code_simp
  from report_lines_order [OF this] lines show ?thesis by blast
qed

text \<open>
  Claim C4 says that of two shifts with equal counts the smaller one comes first. On the
  one-letter ciphertext \<open>A\<close> every shift has count 1. The index order \<open>0, \<dots>, 15\<close>, which
  leaves the 16 equal counts where they are, is an ascending argsort of them, and with it
  the lines come out from shift 16 down to shift 1.
\<close>

theorem report_lines_ties_counterexample:
  "argsort_contract (get_shifts [0] 16) [0, 1, 2, 3, 4, 5, 6, 7, 8, 9, 10, 11, 12, 13, 14, 15] \<and>
   report_lines (\<lambda>a. [0, 1, 2, 3, 4, 5, 6, 7, 8, 9, 10, 11, 12, 13, 14, 15]) [0] =
     [(16, 1), (15, 1), (14, 1), (13, 1), (12, 1), (11, 1), (10, 1), (9, 1),
      (8, 1), (7, 1), (6, 1), (5, 1), (4, 1), (3, 1), (2, 1), (1, 1)]"
  by code_simp

subsection \<open>Key recovery\<close>

lemma argmax_from_Fin:
  "(argmax_from mp mi i (map Fin vals) = mi \<and> (\<forall>x\<in>set vals. x \<le> mp)) \<or>
   (i \<le> argmax_from mp mi i (map Fin vals) \<and>
    argmax_from mp mi i (map Fin vals) - i < length vals \<and>
    mp < vals ! (argmax_from mp mi i (map Fin vals) - i) \<and>
    (\<forall>x\<in>set vals. x \<le> vals ! (argmax_from mp mi i (map Fin vals) - i)) \<and>
    (\<forall>k<argmax_from mp mi i (map Fin vals) - i.
        vals ! k < vals ! (argmax_from mp mi i (map Fin vals) - i)))"
proof (induction vals arbitrary: mp mi i)
  case Nil
  then show ?case by simp
next
  case (Cons x xs)
  show ?case
  proof (cases "x \<le> mp")
    case True
    let ?m = "argmax_from mp mi (Suc i) (map Fin xs)"
    have eq: "argmax_from mp mi i (map Fin (x # xs)) = ?m" using True by simp
    from Cons.IH[of mp mi "Suc i"] show ?thesis
    proof
      assume "?m = mi \<and> (\<forall>x\<in>set xs. x \<le> mp)"
      then show ?thesis using True eq by simp
    next
      assume a: "Suc i \<le> ?m \<and> ?m - Suc i < length xs \<and> mp < xs ! (?m - Suc i) \<and>
        (\<forall>x\<in>set xs. x \<le> xs ! (?m - Suc i)) \<and> (\<forall>k<?m - Suc i. xs ! k < xs ! (?m - Suc i))"
      then have idx: "?m - i = Suc (?m - Suc i)" by linarith
      have "\<forall>k<?m - i. (x # xs) ! k < xs ! (?m - Suc i)"
      proof (intro allI impI)
        fix k assume "k < ?m - i"
        then show "(x # xs) ! k < xs ! (?m - Suc i)"
          using a True idx by (cases k) auto
      qed
      with a True show ?thesis unfolding eq idx by (auto simp: less_imp_le)
    qed
  next
    case False
    let ?m = "argmax_from x i (Suc i) (map Fin xs)"
    have eq: "argmax_from mp mi i (map Fin (x # xs)) = ?m" using False by simp
    from Cons.IH[of x i "Suc i"] show ?thesis
    proof
      assume "?m = i \<and> (\<forall>y\<in>set xs. y \<le> x)"
      then show ?thesis using False eq by simp
    next
      assume a: "Suc i \<le> ?m \<and> ?m - Suc i < length xs \<and> x < xs ! (?m - Suc i) \<and>
        (\<forall>x\<in>set xs. x \<le> xs ! (?m - Suc i)) \<and> (\<forall>k<?m - Suc i. xs ! k < xs ! (?m - Suc i))"
      then have idx: "?m - i = Suc (?m - Suc i)" by linarith
      have "\<forall>k<?m - i. (x # xs) ! k < xs ! (?m - Suc i)"
      proof (intro allI impI)
        fix k assume "k < ?m - i"
        then show "(x # xs) ! k < xs ! (?m - Suc i)"
          using a idx by (cases k) auto
      qed
      with a False show ?thesis unfolding eq idx by (auto simp: less_imp_le)
    qed
  qed
qed

lemma np_argmax_Fin:
  assumes "vals \<noteq> []"
  shows "\<exists>m. np_argmax (map Fin vals) = Inr (int m) \<and> m < length vals \<and>
             (\<forall>x\<in>set vals. x \<le> vals ! m) \<and> (\<forall>k<m. vals ! k < vals ! m)"
proof -
  from assms obtain x xs where vals: "vals = x # xs" by (cases vals) auto
  let ?m = "argmax_from x 0 1 (map Fin xs)"
  have res: "np_argmax (map Fin vals) = Inr (int ?m)" by (simp add: np_argmax_def vals)
  from argmax_from_Fin[of x 0 1 xs]
  have "?m < length vals \<and> (\<forall>y\<in>set vals. y \<le> vals ! ?m) \<and> (\<forall>k<?m. vals ! k < vals ! ?m)"
  proof
    assume "?m = 0 \<and> (\<forall>y\<in>set xs. y \<le> x)"
    then show ?thesis by (simp add: vals)
  next
    assume a: "1 \<le> ?m \<and> ?m - 1 < length xs \<and> x < xs ! (?m - 1) \<and>
      (\<forall>y\<in>set xs. y \<le> xs ! (?m - 1)) \<and> (\<forall>k<?m - 1. xs ! k < xs ! (?m - 1))"
    then obtain m' where m': "?m = Suc m'" by (cases ?m) auto
    have "\<forall>k<?m. vals ! k < vals ! ?m"
    proof (intro allI impI)
      fix k assume "k < ?m"
      then show "vals ! k < vals ! ?m" using a m' by (cases k) (auto simp: vals)
    qed
    with a m' show ?thesis by (auto simp: vals less_imp_le)
  qed
  with res show ?thesis by blast
qed

lemma np_argmax_NaN: "np_argmax (NaN # rest) = Inr 0"
  by (simp add: np_argmax_def)

lemma np_argmax_returns:
  assumes "r \<noteq> []"
  shows "\<exists>m. np_argmax r = Inr m"
proof -
  from assms obtain x xs where "r = x # xs" by (cases r) auto
  then show ?thesis by (cases x) (simp_all add: np_argmax_def)
qed

lemma collect_all_Inr:
  assumes "\<forall>r\<in>set rs. \<exists>x. r = Inr x"
  shows "\<exists>xs. collect rs = Inr xs \<and> length xs = length rs \<and> (\<forall>k<length rs. rs ! k = Inr (xs ! k))"
  using assms
proof (induction rs)
  case Nil
  then show ?case by simp
next
  case (Cons r rs)
  then obtain x where r: "r = Inr x" by auto
  from Cons obtain xs where xs: "collect rs = Inr xs" "length xs = length rs"
    "\<forall>k<length rs. rs ! k = Inr (xs ! k)" by auto
  have "collect (r # rs) = Inr (x # xs)" by (simp add: r xs(1))
  moreover have "\<forall>k<length (r # rs). (r # rs) ! k = Inr ((x # xs) ! k)"
    using xs(3) r by (auto simp: nth_Cons')
  ultimately show ?case using xs(2) by auto
qed

lemma foldl_fadd_Fin:
  "foldl fadd (Fin a) (map Fin xs) = Fin (a + sum_list xs)"
  by (induction xs arbitrary: a) (simp_all add: add.assoc)

lemma foldl_fadd_NaN: "foldl fadd NaN xs = NaN"
  by (induction xs) simp_all

lemma freq_shifts_Cons:
  "\<exists>b bs. freq_shifts = b # bs \<and> length b = 26 \<and> length bs = 25"
proof -
  have len: "length freq_shifts = 26" by (simp add: freq_shifts_rows)
  then obtain b bs where bbs: "freq_shifts = b # bs" by (cases freq_shifts) auto
  have "length (freq_shifts ! 0) = 26" by (simp add: freq_shifts_rows)
  then have "length b = 26" by (simp add: bbs)
  moreover have "length bs = 25" using len by (simp add: bbs)
  ultimately show ?thesis using bbs by blast
qed

lemma np_dot_row:
  assumes "B = b # bs" and "k < length A"
  shows "np_dot A B ! k =
           map (\<lambda>i. foldl fadd (Fin 0) (map2 (\<lambda>a brow. fmul a (Fin (brow ! i))) (A ! k) B))
               [0..<length b]"
  using assms by (simp add: np_dot_def)

lemma np_dot_freq_shifts_row:
  assumes "k < length A"
  shows "np_dot A freq_shifts ! k =
           map (\<lambda>i. foldl fadd (Fin 0) (map2 (\<lambda>a brow. fmul a (Fin (brow ! i))) (A ! k) freq_shifts))
               [0..<26]"
proof -
  from freq_shifts_Cons obtain b bs where B: "freq_shifts = b # bs" and b: "length b = 26" by blast
  from np_dot_row[OF B assms] show ?thesis by (simp only: b)
qed

lemma cipher_freqs_row:
  assumes "k < length buckets"
  shows "cipher_freqs buckets ! k = map (\<lambda>c. bucket_freq (buckets ! k) c) [0..25]"
  using assms by (simp add: cipher_freqs_def)

lemma cipher_freqs_row_nonempty:
  assumes "k < length buckets" and "buckets ! k \<noteq> []"
  shows "cipher_freqs buckets ! k =
           map Fin (map (\<lambda>c. real_of_int (sum_list (filter (\<lambda>x. x = c) (buckets ! k)))
                              / real (length (buckets ! k))) [0..25])"
  using assms by (simp add: cipher_freqs_row bucket_freq_def)

lemma cipher_freqs_row_empty:
  assumes "k < length buckets" and "buckets ! k = []"
  shows "cipher_freqs buckets ! k = replicate 26 NaN"
proof -
  have "cipher_freqs buckets ! k = map (\<lambda>c. NaN) [0..25]"
    using assms by (simp add: cipher_freqs_row bucket_freq_def)
  also have "\<dots> = replicate (length [0..25::int]) NaN" by (rule map_replicate_const)
  finally show ?thesis by simp
qed

lemma score_row_Fin:
  "map (\<lambda>i. foldl fadd (Fin 0) (map2 (\<lambda>a brow. fmul a (Fin (brow ! i))) (map Fin fs) B)) [0..<n]
   = map Fin (map (\<lambda>i. sum_list (map2 (\<lambda>a brow. a * brow ! i) fs B)) [0..<n])"
proof -
  have products: "map2 (\<lambda>a brow. fmul a (Fin (brow ! i))) (map Fin fs) B
        = map Fin (map2 (\<lambda>a brow. a * brow ! i) fs B)" for i
    by (simp add: zip_map1 case_prod_beta)
  have entry: "foldl fadd (Fin 0) (map2 (\<lambda>a brow. fmul a (Fin (brow ! i))) (map Fin fs) B)
        = Fin (sum_list (map2 (\<lambda>a brow. a * brow ! i) fs B))" for i
    unfolding products foldl_fadd_Fin by simp
  show ?thesis by (simp add: entry comp_def)
qed

lemma score_row_NaN:
  assumes "0 < m"
  shows "map (\<lambda>i. foldl fadd (Fin 0) (map2 (\<lambda>a brow. fmul a (Fin (brow ! i))) (replicate m NaN) (b # bs)))
           [0..<n] = replicate n NaN"
proof -
  from assms obtain m' where m: "m = Suc m'" by (cases m) auto
  have "foldl fadd (Fin 0) (map2 (\<lambda>a brow. fmul a (Fin (brow ! i))) (replicate m NaN) (b # bs)) = NaN"
    for i by (simp add: m foldl_fadd_NaN)
  then have "map (\<lambda>i. foldl fadd (Fin 0)
      (map2 (\<lambda>a brow. fmul a (Fin (brow ! i))) (replicate m NaN) (b # bs))) [0..<n]
      = map (\<lambda>i. NaN) [0..<n]" by simp
  also have "\<dots> = replicate (length [0..<n]) NaN" by (rule map_replicate_const)
  finally show ?thesis by simp
qed

lemma scores_Inr:
  assumes "buckets \<noteq> []"
  shows "scores buckets = Inr (np_dot (cipher_freqs buckets) freq_shifts)"
  using assms by (simp add: scores_def)

lemma scores_length: "length (np_dot (cipher_freqs buckets) freq_shifts) = length buckets"
  by (simp add: np_dot_def cipher_freqs_def)

lemma scores_row_nonempty:
  assumes "k < length buckets" and "buckets ! k \<noteq> []"
  shows "\<exists>vals. np_dot (cipher_freqs buckets) freq_shifts ! k = map Fin vals \<and> length vals = 26"
proof -
  have k: "k < length (cipher_freqs buckets)" using assms(1) by (simp add: cipher_freqs_def)
  let ?fs = "map (\<lambda>c. real_of_int (sum_list (filter (\<lambda>x. x = c) (buckets ! k)))
                              / real (length (buckets ! k))) [0..25]"
  let ?vals = "map (\<lambda>i. sum_list (map2 (\<lambda>a brow. a * brow ! i) ?fs freq_shifts)) [0..<26]"
  have "np_dot (cipher_freqs buckets) freq_shifts ! k = map Fin ?vals"
    unfolding np_dot_freq_shifts_row[OF k] cipher_freqs_row_nonempty[OF assms]
    by (rule score_row_Fin)
  moreover have "length ?vals = 26" by simp
  ultimately show ?thesis by blast
qed

lemma scores_row_empty:
  assumes "k < length buckets" and "buckets ! k = []"
  shows "np_dot (cipher_freqs buckets) freq_shifts ! k = replicate 26 NaN"
proof -
  have k: "k < length (cipher_freqs buckets)" using assms(1) by (simp add: cipher_freqs_def)
  from freq_shifts_Cons obtain b bs where B: "freq_shifts = b # bs" by blast
  have "np_dot (cipher_freqs buckets) freq_shifts ! k =
          map (\<lambda>i. foldl fadd (Fin 0)
                 (map2 (\<lambda>a brow. fmul a (Fin (brow ! i))) (cipher_freqs buckets ! k) freq_shifts))
              [0..<26]"
    by (rule np_dot_freq_shifts_row[OF k])
  also have "\<dots> = map (\<lambda>i. foldl fadd (Fin 0)
                 (map2 (\<lambda>a brow. fmul a (Fin (brow ! i))) (replicate 26 NaN) (b # bs)))
              [0..<26]"
    by (simp only: cipher_freqs_row_empty[OF assms] B)
  also have "\<dots> = replicate 26 NaN" by (rule score_row_NaN) simp
  finally show ?thesis .
qed

lemma scores_row_length:
  assumes "k < length buckets"
  shows "length (np_dot (cipher_freqs buckets) freq_shifts ! k) = 26"
proof -
  have k: "k < length (cipher_freqs buckets)" using assms(1) by (simp add: cipher_freqs_def)
  show ?thesis unfolding np_dot_freq_shifts_row[OF k] by simp
qed

lemma get_key_returns:
  assumes "buckets \<noteq> []"
  shows "\<exists>key. get_key buckets = Inr key \<and> length key = length buckets \<and>
           (\<forall>k<length buckets.
              np_argmax (np_dot (cipher_freqs buckets) freq_shifts ! k) = Inr (key ! k))"
proof -
  let ?R = "np_dot (cipher_freqs buckets) freq_shifts"
  have "\<forall>r\<in>set (map np_argmax ?R). \<exists>x. r = Inr x"
  proof
    fix r assume "r \<in> set (map np_argmax ?R)"
    then obtain k where k: "k < length ?R" and r: "r = np_argmax (?R ! k)"
      by (auto simp: in_set_conv_nth)
    from k have "length (?R ! k) = 26" by (simp add: scores_length scores_row_length)
    then have "?R ! k \<noteq> []" by auto
    then show "\<exists>x. r = Inr x" unfolding r by (rule np_argmax_returns)
  qed
  from collect_all_Inr[OF this] obtain key where key: "collect (map np_argmax ?R) = Inr key"
    "length key = length (map np_argmax ?R)"
    "\<forall>k<length (map np_argmax ?R). map np_argmax ?R ! k = Inr (key ! k)" by blast
  have "get_key buckets = Inr key"
    using assms key(1) by (simp add: get_key_def scores_Inr)
  moreover have "length key = length buckets" using key(2) by (simp add: scores_length)
  moreover have "\<forall>k<length buckets. np_argmax (?R ! k) = Inr (key ! k)"
    using key(3) by (simp add: scores_length)
  ultimately show ?thesis by blast
qed

text \<open>
  What \<open>np.argmax\<close> gives: for a non-empty bucket \<open>k\<close>, entry \<open>k\<close> of the key is the first
  index at which the row of scores that \<open>get_key\<close> itself computed takes its maximum.
\<close>

lemma get_key_first_maximum:
  assumes "k < length buckets" and "buckets ! k \<noteq> []"
  shows "\<exists>R key vals.
           scores buckets = Inr R \<and> get_key buckets = Inr key \<and> length key = length buckets \<and>
           R ! k = map Fin vals \<and> length vals = 26 \<and>
           0 \<le> key ! k \<and> key ! k < 26 \<and>
           (\<forall>i<26. vals ! i \<le> vals ! nat (key ! k)) \<and>
           (\<forall>i<nat (key ! k). vals ! i < vals ! nat (key ! k))"
proof -
  let ?R = "np_dot (cipher_freqs buckets) freq_shifts"
  from assms(1) have ne: "buckets \<noteq> []" by auto
  from get_key_returns[OF ne] obtain key where key: "get_key buckets = Inr key"
    "length key = length buckets" "np_argmax (?R ! k) = Inr (key ! k)"
    using assms(1) by blast
  from scores_row_nonempty[OF assms] obtain vals where vals: "?R ! k = map Fin vals"
    "length vals = 26" by blast
  then have "vals \<noteq> []" by auto
  from np_argmax_Fin[OF this] obtain m where m: "np_argmax (map Fin vals) = Inr (int m)"
    "m < length vals" "\<forall>x\<in>set vals. x \<le> vals ! m" "\<forall>i<m. vals ! i < vals ! m" by blast
  have km: "key ! k = int m" using key(3) m(1) vals(1) by simp
  have "\<forall>i<26. vals ! i \<le> vals ! m" using m(3) vals(2) by simp
  with km m vals key scores_Inr[OF ne] show ?thesis by auto
qed

text \<open>
  Claim C6 says that key recovery fails with an EmptyBucketError when a bucket is empty.
  \<open>get_key\<close> has no such check: for the two-letter ciphertext \<open>AB\<close> and the key length 3
  the third bucket is empty, and a key comes back, with shift 0 for that bucket.
\<close>

theorem get_key_short_text_counterexample:
  "get_key (get_buckets [0, 1] 3) = Inr [0, 23, 0]"
  by code_simp

text \<open>
  Claim C6, amended. For every list of buckets with at least one bucket, also when some
  bucket is empty (as when the key length exceeds the ciphertext length), \<open>get_key\<close> raises
  nothing and returns a key with one shift per bucket; the frequency vector of an empty bucket
  is 26 times nan, the result of \<open>0 / 0\<close>, and the shift recovered for it is 0.
\<close>

theorem get_key_empty_bucket:
  assumes "buckets \<noteq> []"
  shows "\<exists>key. get_key buckets = Inr key \<and> length key = length buckets \<and>
           (\<forall>k<length buckets. buckets ! k = [] \<longrightarrow>
              cipher_freqs buckets ! k = replicate 26 NaN \<and> key ! k = 0)"
proof -
  let ?R = "np_dot (cipher_freqs buckets) freq_shifts"
  from get_key_returns[OF assms] obtain key where key: "get_key buckets = Inr key"
    "length key = length buckets" "\<forall>k<length buckets. np_argmax (?R ! k) = Inr (key ! k)"
    by blast
  have "cipher_freqs buckets ! k = replicate 26 NaN \<and> key ! k = 0"
    if k: "k < length buckets" and e: "buckets ! k = []" for k
  proof -
    have "?R ! k = replicate 26 NaN" using k e by (rule scores_row_empty)
    also have "\<dots> = NaN # replicate 25 NaN" by (simp add: numeral_eq_Suc)
    finally have "np_argmax (?R ! k) = Inr 0" by (simp add: np_argmax_NaN)
    with key(3) k have "key ! k = 0" by simp
    with cipher_freqs_row_empty[OF k e] show ?thesis by simp
  qed
  with key show ?thesis by blast
qed

theorem get_key_empty_bucket_witness:
  "\<exists>key. get_key [[]] = Inr key \<and> length key = 1 \<and>
         cipher_freqs [[]] ! 0 = replicate 26 NaN \<and> key ! 0 = 0"
proof -
  have "[[]] \<noteq> ([] :: int list list)" by simp
  from get_key_empty_bucket[OF this] obtain key where "get_key [[]] = Inr key"
    "length key = length [[] :: int list]"
    "\<forall>k<length [[] :: int list]. [[]] ! k = ([] :: int list) \<longrightarrow>
        cipher_freqs [[]] ! k = replicate 26 NaN \<and> key ! k = 0"
    by blast
  then show ?thesis by auto
qed

lemma sum_selected:
  "sum_list (filter (\<lambda>x. x = c) ct) = c * int (count_list ct c)"
  by (induction ct) (simp_all add: algebra_simps)

lemma bucket_freq_weighted:
  assumes "ct \<noteq> []"
  shows "bucket_freq ct c = Fin (real_of_int c * real (count_list ct c) / real (length ct))"
  using assms by (simp add: bucket_freq_def sum_selected)

text \<open>
  Claim C1 says that entry \<open>c\<close> of a bucket's frequency vector is the number of occurrences
  of \<open>c\<close> divided by the bucket length, so that the vector sums to 1. Line 91 adds up the
  selected elements instead of counting them, which gives \<open>c\<close> times that number
  (\<open>bucket_freq_weighted\<close>). For the ciphertext \<open>CC\<close> and key length 1 the only bucket is
  \<open>[2, 2]\<close>: entry 2 of its vector is \<open>(2 + 2) / 2 = 2\<close>, not \<open>2 / 2 = 1\<close>, and the
  vector sums to 2.
\<close>

theorem cipher_freqs_CC:
  "cipher_freqs (get_buckets (get_cipher_text ''CC'') 1) =
  [[Fin 0, Fin 0, Fin 2, Fin 0, Fin 0, Fin 0, Fin 0, Fin 0, Fin 0, Fin 0, Fin 0, Fin 0, Fin 0,
    Fin 0, Fin 0, Fin 0, Fin 0, Fin 0, Fin 0, Fin 0, Fin 0, Fin 0, Fin 0, Fin 0, Fin 0, Fin 0]]"
  by code_simp

text \<open>
  Claim C8 says that the shift recovered for a non-empty bucket is an index of the maximum
  of that bucket's score vector, the empirical frequency vector times the matrix. \<open>get_key\<close>
  takes the first maximum of its own row of scores, but that row is built from the weighted
  sums of line 91 (see claim C1), not from the frequencies. For the ciphertext \<open>HHHHAAAD\<close>
  and key length 1 it returns the shift 3, and the bucket's score vector is strictly larger
  at index 7 than at index 3.
\<close>

theorem get_key_HHHHAAAD:
  "get_key (get_buckets (get_cipher_text ''HHHHAAAD'') 1) = Inr [3] \<and>
   spec_scores (get_cipher_text ''HHHHAAAD'') ! 3 < spec_scores (get_cipher_text ''HHHHAAAD'') ! 7"
proof -
  have "get_key (get_buckets (get_cipher_text ''HHHHAAAD'') 1) = Inr [3]"
    by code_simp
  moreover have "spec_scores (get_cipher_text ''HHHHAAAD'') ! 3
      < spec_scores (get_cipher_text ''HHHHAAAD'') ! 7"
    by code_simp
  ultimately show ?thesis by simp
qed

end
